theory Spec2Isabelle
  imports Main "HOL-Library.Word" "HOL-Library.Multiset"
begin

unbundle bit_operations_syntax

section \<open>dup-fu: the data of main.go\<close>

text \<open>
  The program is one Go file. Its goroutines are a walker (\<open>scan\<close>/\<open>walk\<close>), two
  fingerprint workers (\<open>calculateChecksum\<close>), one aggregator (\<open>findDuplicates\<close>), a
  statistics printer (\<open>updateStats\<close>) and three key-bound actions
  (\<open>deleteDuplicates\<close>, \<open>moveDuplicates\<close>, \<open>exportDuplicates\<close>).
  Go strings are byte sequences and are modelled as \<open>string\<close>; \<open>int64\<close>, \<open>uint64\<close>
  and \<open>uint32\<close> are words, so that every addition wraps as it does in Go.
\<close>

type_synonym byte = "8 word"

text \<open>\<open>type tFileData struct { path string; size int64; hash []byte; modified int64 }\<close>\<close>

record tFileData =
  path :: string
  fsize :: "64 word"
  hash :: "byte list"
  modified :: "64 word"

text \<open>
  \<open>type tStats struct { seconds uint64; count uint32; size uint64; duplicates uint32;
  duplicateSize uint64; complted bool }\<close>. The fields carry the suffix \<open>_st\<close>.
\<close>

record tStats =
  seconds_st :: "64 word"
  count_st :: "32 word"
  size_st :: "64 word"
  duplicates_st :: "32 word"
  duplicateSize_st :: "64 word"
  complted_st :: bool

text \<open>
  The package variables \<open>duplicates map[string][]tFileData\<close> and \<open>stats tStats\<close>, which
  \<open>findDuplicates\<close> mutates, as one state. \<open>main\<close> initialises them to the empty
  map and to \<open>tStats{0, 0, 0, 0, 0, false}\<close>.
\<close>

record globals =
  duplicates :: "string \<rightharpoonup> tFileData list"
  stats :: tStats

definition stats0 :: tStats where
  "stats0 = \<lparr>seconds_st = 0, count_st = 0, size_st = 0, duplicates_st = 0,
             duplicateSize_st = 0, complted_st = False\<rparr>"

definition globals0 :: globals where
  "globals0 = \<lparr>duplicates = Map.empty, stats = stats0\<rparr>"

text \<open>Every way the program can stop with \<open>log.Panicln\<close> or a run-time panic.\<close>

datatype panic =
    NilDereference
  | OpenError
  | RemoveError
  | RenameError
  | MkdirError
  | CreateError
  | WriteError

section \<open>Library functions the program calls\<close>

subsection \<open>hash/crc32 with the IEEE table\<close>

text \<open>
  \<open>crc32.New(crc32.IEEETable)\<close>: the table entry of byte \<open>i\<close> is eight rounds of
  shift-and-conditionally-xor with the reversed polynomial \<open>0xedb88320\<close>; an update
  complements the running value, folds every byte through the table and complements
  again; \<open>Sum(nil)\<close> is the value in big-endian byte order.
\<close>

definition IEEE :: "32 word" where
  "IEEE = 0xedb88320"

fun simpleMakeTable_loop :: "32 word \<Rightarrow> nat \<Rightarrow> 32 word \<Rightarrow> 32 word" where
  "simpleMakeTable_loop poly 0 crc = crc"
| "simpleMakeTable_loop poly (Suc j) crc =
     simpleMakeTable_loop poly j
       (if crc AND 1 = 1 then drop_bit 1 crc XOR poly else drop_bit 1 crc)"

definition IEEETable :: "byte \<Rightarrow> 32 word" where
  "IEEETable i = simpleMakeTable_loop IEEE 8 (ucast i)"

fun simpleUpdate_loop :: "32 word \<Rightarrow> byte list \<Rightarrow> 32 word" where
  "simpleUpdate_loop crc [] = crc"
| "simpleUpdate_loop crc (v # p) =
     simpleUpdate_loop (IEEETable (ucast crc XOR v) XOR drop_bit 8 crc) p"

definition simpleUpdate :: "32 word \<Rightarrow> byte list \<Rightarrow> 32 word" where
  "simpleUpdate crc p = NOT (simpleUpdate_loop (NOT crc) p)"

definition ChecksumIEEE :: "string \<Rightarrow> 32 word" where
  "ChecksumIEEE content = simpleUpdate 0 (map of_char content)"

definition Sum32 :: "32 word \<Rightarrow> byte list" where
  "Sum32 s = [ucast (drop_bit 24 s), ucast (drop_bit 16 s), ucast (drop_bit 8 s), ucast s]"

subsection \<open>fmt.Sprintf("%x", bytes)\<close>

text \<open>Two lower-case hexadecimal digits per byte, nothing between the bytes.\<close>

definition ldigits :: string where
  "ldigits = ''0123456789abcdef''"

definition hex_byte :: "byte \<Rightarrow> string" where
  "hex_byte c = [ldigits ! unat (drop_bit 4 c), ldigits ! unat (c AND 15)]"

definition Sprintf_x :: "byte list \<Rightarrow> string" where
  "Sprintf_x bs = concat (map hex_byte bs)"

subsection \<open>sort.Slice\<close>

text \<open>
  \<open>findDuplicates\<close> calls \<open>sort.Slice(list, func(i, j int) bool { return
  list[i].modified < list[j].modified })\<close>. The comparison is on \<open>int64\<close>, hence signed.
  The sort routine itself is Go's; the model takes it as a parameter \<open>srt\<close> and states
  what the library documents: the result is a rearrangement of the slice in which no
  element is followed by a smaller one. The documentation of \<open>sort.Slice\<close> adds that
  the sort is not guaranteed to be stable.
\<close>

definition less_modified :: "tFileData \<Rightarrow> tFileData \<Rightarrow> bool" where
  "less_modified a b \<longleftrightarrow> modified a <s modified b"

definition sort_Slice_contract :: "(tFileData list \<Rightarrow> tFileData list) \<Rightarrow> bool" where
  "sort_Slice_contract srt \<longleftrightarrow>
     (\<forall>xs. mset (srt xs) = mset xs \<and> sorted_wrt (\<lambda>a b. \<not> less_modified b a) (srt xs))"

text \<open>
  One routine that meets the contract, written with the index loops and swaps of Go's
  package \<open>sort\<close>: the releases 1.8 to 1.18 run exactly this on a slice of at most twelve
  elements (\<open>quickSort_func\<close>: a Shell pass with gap 6, then \<open>insertionSort_func\<close>).
\<close>

definition Swap :: "'a list \<Rightarrow> nat \<Rightarrow> nat \<Rightarrow> 'a list" where
  "Swap xs i j = xs[i := xs ! j, j := xs ! i]"

fun insertion_inner :: "('a \<Rightarrow> 'a \<Rightarrow> bool) \<Rightarrow> 'a list \<Rightarrow> nat \<Rightarrow> 'a list" where
  "insertion_inner lt xs 0 = xs"
| "insertion_inner lt xs (Suc j) =
     (if lt (xs ! Suc j) (xs ! j) then insertion_inner lt (Swap xs (Suc j) j) j else xs)"

definition insertionSort_func :: "('a \<Rightarrow> 'a \<Rightarrow> bool) \<Rightarrow> 'a list \<Rightarrow> 'a list" where
  "insertionSort_func lt xs = foldl (insertion_inner lt) xs [1..<length xs]"

definition shell_step :: "('a \<Rightarrow> 'a \<Rightarrow> bool) \<Rightarrow> 'a list \<Rightarrow> nat \<Rightarrow> 'a list" where
  "shell_step lt xs i = (if lt (xs ! i) (xs ! (i - 6)) then Swap xs i (i - 6) else xs)"

definition quickSort_short :: "('a \<Rightarrow> 'a \<Rightarrow> bool) \<Rightarrow> 'a list \<Rightarrow> 'a list" where
  "quickSort_short lt xs =
     (if 1 < length xs
      then insertionSort_func lt (foldl (shell_step lt) xs [6..<length xs])
      else xs)"

subsection \<open>path/filepath\<close>

text \<open>
  \<open>filepath.Base\<close> on a system whose separator is \<open>/\<close>: the empty path gives \<open>.\<close>;
  trailing separators are dropped; the result is what follows the last separator, or
  \<open>/\<close> when nothing is left. \<open>filepath.Join\<close> is a parameter \<open>Join\<close> of the actions
  that use it.
\<close>

definition Base :: "string \<Rightarrow> string" where
  "Base p =
     (if p = [] then ''.''
      else let stripped = rev (dropWhile (\<lambda>c. c = CHR ''/'') (rev p));
               last_elem = rev (takeWhile (\<lambda>c. c \<noteq> CHR ''/'') (rev stripped))
           in if last_elem = [] then ''/'' else last_elem)"

section \<open>Walker: walk and scan\<close>

text \<open>
  \<open>os.FileInfo\<close> is an interface; the record holds the results of the four methods
  \<open>walk\<close> calls: \<open>Mode().IsRegular()\<close>, \<open>IsDir()\<close>, \<open>Size()\<close> and
  \<open>ModTime().UnixNano()\<close>. A nil \<open>info\<close> is \<open>None\<close>. \<open>walk\<close> tests \<open>err\<close> and does nothing
  with it, then calls a method of \<open>info\<close>: on a nil \<open>info\<close> that is a run-time panic.
  The result is the record sent on \<open>fileChannel\<close>, if any; the Go function returns
  \<open>nil\<close> on every path.
\<close>

record FileInfo =
  IsRegular :: bool
  IsDir :: bool
  Size :: "64 word"
  ModTime_UnixNano :: "64 word"

definition walk :: "string \<Rightarrow> FileInfo option \<Rightarrow> string option \<Rightarrow> panic + tFileData option" where
  "walk p info err =
     (case info of
        None \<Rightarrow> Inl NilDereference
      | Some i \<Rightarrow>
          if \<not> IsRegular i then Inr None
          else if IsDir i then Inr None
          else if 0 <s Size i
               then Inr (Some \<lparr>path = p, fsize = Size i, hash = [], modified = ModTime_UnixNano i\<rparr>)
               else Inr None)"

text \<open>
  \<open>filepath.Walk(scanDir, walk)\<close> calls \<open>walk\<close> once per entry it reaches, in lexical
  order; as \<open>walk\<close> never returns an error, the walk is never cut short by one. An
  entry is the triple of arguments of one call. \<open>scan_loop\<close> gives the records sent
  and the panic that ended the walk, if any; \<open>scan\<close> sets \<open>stats.complted\<close> when
  \<open>filepath.Walk\<close> has returned.
\<close>

type_synonym entry = "string \<times> FileInfo option \<times> string option"

fun scan_loop :: "entry list \<Rightarrow> tFileData list \<times> panic option" where
  "scan_loop [] = ([], None)"
| "scan_loop ((p, info, err) # es) =
     (case walk p info err of
        Inl e \<Rightarrow> ([], Some e)
      | Inr sent \<Rightarrow>
          (case scan_loop es of (ds, r) \<Rightarrow> (case sent of None \<Rightarrow> ds | Some d \<Rightarrow> d # ds, r)))"

definition scan :: "entry list \<Rightarrow> tStats \<Rightarrow> tFileData list \<times> tStats \<times> panic option" where
  "scan es st =
     (case scan_loop es of
        (ds, None) \<Rightarrow> (ds, st\<lparr>complted_st := True\<rparr>, None)
      | (ds, Some e) \<Rightarrow> (ds, st, Some e))"

section \<open>Storage\<close>

text \<open>
  What the program sees of the file system: the regular files with their content, the
  paths on which the system refuses an operation (permission denied and the like), and
  the number of bytes that can still be written. A file that is absent, or refused,
  cannot be opened.
\<close>

record fsys =
  files :: "string \<rightharpoonup> string"
  denied :: "string set"
  space :: nat

definition os_Open :: "fsys \<Rightarrow> string \<Rightarrow> panic + string" where
  "os_Open fs p =
     (case files fs p of
        None \<Rightarrow> Inl OpenError
      | Some c \<Rightarrow> if p \<in> denied fs then Inl OpenError else Inr c)"

definition os_Remove :: "fsys \<Rightarrow> string \<Rightarrow> panic + fsys" where
  "os_Remove fs p =
     (if files fs p = None \<or> p \<in> denied fs then Inl RemoveError
      else Inr (fs\<lparr>files := (files fs)(p := None)\<rparr>))"

text \<open>\<open>os.Rename\<close> replaces a file that already exists at the new path.\<close>

definition os_Rename :: "fsys \<Rightarrow> string \<Rightarrow> string \<Rightarrow> panic + fsys" where
  "os_Rename fs old new =
     (case files fs old of
        None \<Rightarrow> Inl RenameError
      | Some c \<Rightarrow>
          if old \<in> denied fs \<or> new \<in> denied fs then Inl RenameError
          else Inr (fs\<lparr>files := (files fs)(old := None, new \<mapsto> c)\<rparr>))"

text \<open>\<open>os.MkdirAll\<close> fails where the path is a regular file or is refused.\<close>

definition os_MkdirAll :: "fsys \<Rightarrow> string \<Rightarrow> panic + fsys" where
  "os_MkdirAll fs p =
     (if files fs p \<noteq> None \<or> p \<in> denied fs then Inl MkdirError else Inr fs)"

text \<open>\<open>os.Create\<close> makes the file or truncates it.\<close>

definition os_Create :: "fsys \<Rightarrow> string \<Rightarrow> panic + fsys" where
  "os_Create fs p =
     (if p \<in> denied fs then Inl CreateError
      else Inr (fs\<lparr>files := (files fs)(p \<mapsto> [])\<rparr>))"

text \<open>
  \<open>file.WriteString\<close> appends; when the text does not fit, what fits is written and
  the call returns an error (\<open>False\<close>).
\<close>

definition WriteString :: "fsys \<Rightarrow> string \<Rightarrow> string \<Rightarrow> fsys \<times> bool" where
  "WriteString fs p s =
     (let old = (case files fs p of None \<Rightarrow> [] | Some c \<Rightarrow> c);
          n = min (length s) (space fs)
      in (fs\<lparr>files := (files fs)(p \<mapsto> old @ take n s), space := space fs - n\<rparr>,
          length s \<le> space fs))"

section \<open>Fingerprinter: checksum and calculateChecksum\<close>

text \<open>
  \<open>checksum\<close> opens the file, copies it through the CRC and returns the four bytes of
  the sum and the number of bytes copied; an error of \<open>os.Open\<close> or
  \<open>io.CopyBuffer\<close> goes to \<open>log.Panicln\<close>. The copy buffer only sets how the content
  is cut into pieces, which leaves the sum unchanged (lemma \<open>simpleUpdate_append\<close>).
\<close>

definition checksum :: "fsys \<Rightarrow> string \<Rightarrow> panic + (byte list \<times> 64 word)" where
  "checksum fs file =
     (case os_Open fs file of
        Inl e \<Rightarrow> Inl e
      | Inr content \<Rightarrow> Inr (Sum32 (ChecksumIEEE content), of_nat (length content)))"

text \<open>
  \<open>for data := range fileChannel { data.hash, _ = checksum(data.path);
  checksumChannel <- data }\<close>: the byte count is discarded. The result is the
  records sent on \<open>checksumChannel\<close> and the panic that ended the loop, if any.
\<close>

fun calculateChecksum :: "fsys \<Rightarrow> tFileData list \<Rightarrow> tFileData list \<times> panic option" where
  "calculateChecksum fs [] = ([], None)"
| "calculateChecksum fs (data # rest) =
     (case checksum fs (path data) of
        Inl e \<Rightarrow> ([], Some e)
      | Inr (h, n) \<Rightarrow>
          (case calculateChecksum fs rest of (out, r) \<Rightarrow> (data\<lparr>hash := h\<rparr> # out, r)))"

section \<open>Aggregator: findDuplicates\<close>

text \<open>
  The body of the loop \<open>for d := range checksumChannel\<close>. The part that refreshes the
  list widget reads \<open>list\<close> and \<open>stats.duplicates\<close> and writes only the widget; it is
  left out. \<open>list[1]\<close> is in range there, because a list found in the map has at least
  one member before the append.
\<close>

definition hash_key :: "tFileData \<Rightarrow> string" where
  "hash_key d = Sprintf_x (hash d)"

definition findDuplicates_body ::
    "(tFileData list \<Rightarrow> tFileData list) \<Rightarrow> globals \<Rightarrow> tFileData \<Rightarrow> globals" where
  "findDuplicates_body srt g d =
     (let st1 = (stats g)\<lparr>count_st := count_st (stats g) + 1,
                          size_st := size_st (stats g) + fsize d\<rparr>;
          h = hash_key d
      in case duplicates g h of
           Some list \<Rightarrow>
             g\<lparr>duplicates := (duplicates g)(h \<mapsto> srt (list @ [d])),
               stats := st1\<lparr>duplicates_st := duplicates_st st1 + 1,
                            duplicateSize_st := duplicateSize_st st1 + fsize d\<rparr>\<rparr>
         | None \<Rightarrow> g\<lparr>duplicates := (duplicates g)(h \<mapsto> [d]), stats := st1\<rparr>)"

definition findDuplicates ::
    "(tFileData list \<Rightarrow> tFileData list) \<Rightarrow> globals \<Rightarrow> tFileData list \<Rightarrow> globals" where
  "findDuplicates srt g ds = foldl (findDuplicates_body srt) g ds"

section \<open>Specification notions\<close>

definition mtime :: "tFileData \<Rightarrow> int" where "mtime d = sint (modified d)"

definition duplicateCount_spec :: "(string \<rightharpoonup> tFileData list) \<Rightarrow> nat" where
  "duplicateCount_spec m = (\<Sum>k\<in>dom m. length (the (m k)) - 1)"

definition duplicateBytes_spec :: "(string \<rightharpoonup> tFileData list) \<Rightarrow> nat" where
  "duplicateBytes_spec m = (\<Sum>k\<in>dom m. sum_list (map (\<lambda>d. unat (fsize d)) (tl (the (m k)))))"

definition members :: "(string \<rightharpoonup> tFileData list) \<Rightarrow> string \<Rightarrow> tFileData list" where
  "members m k = (case m k of None \<Rightarrow> [] | Some l \<Rightarrow> l)"

definition sum_groups :: "('v \<Rightarrow> nat) \<Rightarrow> ('k \<rightharpoonup> 'v) \<Rightarrow> nat" where
  "sum_groups f m = (\<Sum>k\<in>dom m. f (the (m k)))"

definition registry_inv :: "(string \<rightharpoonup> tFileData list) \<Rightarrow> bool" where
  "registry_inv m \<longleftrightarrow>
     finite (dom m) \<and> (\<forall>k l. m k = Some l \<longrightarrow> l \<noteq> [] \<and> sorted (map mtime l))"

definition uniform_sizes :: "tFileData list \<Rightarrow> bool" where
  "uniform_sizes ds \<longleftrightarrow> (\<forall>a\<in>set ds. \<forall>b\<in>set ds. hash_key a = hash_key b \<longrightarrow> fsize a = fsize b)"

text \<open>
  The counter identities of the specification, read on unsigned values:
  \<open>duplicateCount\<close> is the sum over the groups of the member count less one, and
  \<open>duplicateBytes\<close> the sum of the sizes of the members after the first.
\<close>

definition counter_identities :: "globals \<Rightarrow> bool" where
  "counter_identities g \<longleftrightarrow>
     unat (duplicates_st (stats g)) = duplicateCount_spec (duplicates g) \<and>
     unat (duplicateSize_st (stats g)) = duplicateBytes_spec (duplicates g)"

text \<open>
  The order the specification asks of a group: the records of the stream that carry the
  key, ascending by modification time, ties in the order of arrival (\<open>sort_key\<close> is
  stable).
\<close>

definition arrival_order_spec :: "tFileData list \<Rightarrow> string \<Rightarrow> tFileData list" where
  "arrival_order_spec ds k = sort_key mtime (filter (\<lambda>d. hash_key d = k) ds)"

section \<open>Concrete records\<close>

text \<open>
  \<open>hash_a\<close> is the CRC-32 of the one-byte content \<open>a\<close>, and \<open>content_b\<close> is a
  four-byte content with the same CRC-32 (lemmas \<open>ChecksumIEEE_a\<close>,
  \<open>ChecksumIEEE_b\<close>).
\<close>

definition hash_a :: "byte list" where
  "hash_a = [0xe8, 0xb7, 0xbe, 0x43]"

definition fd :: "string \<Rightarrow> 64 word \<Rightarrow> 64 word \<Rightarrow> tFileData" where
  "fd p s m = \<lparr>path = p, fsize = s, hash = hash_a, modified = m\<rparr>"

definition seven_then_older :: "tFileData list" where
  "seven_then_older =
     [fd ''/s/f0'' 1 5, fd ''/s/f1'' 1 5, fd ''/s/f2'' 1 5, fd ''/s/f3'' 1 5,
      fd ''/s/f4'' 1 5, fd ''/s/f5'' 1 5, fd ''/s/f6'' 1 5, fd ''/s/g'' 1 1]"

definition content_b :: string where
  "content_b = [CHR 0x7E, CHR 0xD9, CHR 0xD1, CHR 0x3D]"

section \<open>Notions used to state the fingerprinting claims\<close>

definition readable :: "fsys \<Rightarrow> string \<Rightarrow> bool" where
  "readable fs p \<longleftrightarrow> files fs p \<noteq> None \<and> p \<notin> denied fs"

definition content_of :: "fsys \<Rightarrow> string \<Rightarrow> string" where
  "content_of fs p = (case files fs p of None \<Rightarrow> [] | Some c \<Rightarrow> c)"

text \<open>The record a worker sends for \<open>d\<close>: only the hash is filled in.\<close>

definition fingerprinted :: "fsys \<Rightarrow> tFileData \<Rightarrow> tFileData" where
  "fingerprinted fs d = d\<lparr>hash := Sum32 (ChecksumIEEE (content_of fs (path d)))\<rparr>"

section \<open>The short-slice sort meets the contract of sort.Slice\<close>

lemma length_Swap: "length (Swap xs i j) = length xs"
  by (simp add: Swap_def)

lemma mset_Swap: "i < length xs \<Longrightarrow> j < length xs \<Longrightarrow> mset (Swap xs i j) = mset xs"
  unfolding Swap_def by (rule mset_swap)

lemma Swap_adjacent:
  "Swap (pre @ y # x # rest) (Suc (length pre)) (length pre) = pre @ x # y # rest"
  by (simp add: Swap_def nth_append list_update_append)

lemma length_insertion_inner: "length (insertion_inner lt xs j) = length xs"
  by (induction j arbitrary: xs) (simp_all add: length_Swap)

lemma mset_insertion_inner: "j < length xs \<Longrightarrow> mset (insertion_inner lt xs j) = mset xs"
  by (induction j arbitrary: xs) (simp_all add: length_Swap mset_Swap)

lemma length_shell_step: "length (shell_step lt xs i) = length xs"
  by (simp add: shell_step_def length_Swap)

lemma mset_shell_step: "i < length xs \<Longrightarrow> mset (shell_step lt xs i) = mset xs"
  by (simp add: shell_step_def mset_Swap)

lemma foldl_index_mset:
  assumes "\<And>ys i. length (f ys i) = length ys"
    and "\<And>ys i. i < length ys \<Longrightarrow> mset (f ys i) = mset ys"
  shows "\<forall>i\<in>set is. i < length xs \<Longrightarrow> mset (foldl f xs is) = mset xs \<and> length (foldl f xs is) = length xs"
proof (induction "is" arbitrary: xs)
  case Nil
  then show ?case by simp
next
  case (Cons i "is")
  have "\<forall>j\<in>set is. j < length (f xs i)" using Cons.prems by (simp add: assms(1))
  from Cons.IH [OF this] show ?case using Cons.prems by (simp add: assms)
qed

lemma insertion_inner_sorted:
  fixes k :: "'a \<Rightarrow> int"
  assumes lt: "\<And>a b. lt a b \<longleftrightarrow> k a < k b"
  shows "sorted (map k (pre @ suf)) \<Longrightarrow> \<forall>y\<in>set suf. k x \<le> k y \<Longrightarrow>
     \<exists>ys. insertion_inner lt (pre @ x # suf @ rest) (length pre) = ys @ rest
        \<and> sorted (map k ys) \<and> length ys = Suc (length pre + length suf)"
proof (induction pre arbitrary: suf rule: rev_induct)
  case Nil
  then show ?case by (auto simp: sorted_append)
next
  case (snoc y pre)
  show ?case
  proof (cases "lt x y")
    case True
    have s: "sorted (map k (pre @ (y # suf)))" using snoc.prems(1) by simp
    have b: "\<forall>z\<in>set (y # suf). k x \<le> k z" using snoc.prems(2) True lt by auto
    from snoc.IH [OF s b] obtain ys where
      ys: "insertion_inner lt (pre @ x # (y # suf) @ rest) (length pre) = ys @ rest"
          "sorted (map k ys)" "length ys = Suc (length pre + length (y # suf))" by blast
    have "insertion_inner lt ((pre @ [y]) @ x # suf @ rest) (length (pre @ [y]))
        = insertion_inner lt (Swap (pre @ y # x # suf @ rest) (Suc (length pre)) (length pre)) (length pre)"
      using True by (simp add: nth_append)
    also have "\<dots> = ys @ rest" using ys(1) by (simp add: Swap_adjacent)
    finally show ?thesis using ys(2,3) by auto
  next
    case False
    then have le: "k y \<le> k x" using lt by auto
    have "insertion_inner lt ((pre @ [y]) @ x # suf @ rest) (length (pre @ [y]))
        = ((pre @ [y]) @ x # suf) @ rest"
      using False by (simp add: nth_append)
    moreover have "sorted (map k ((pre @ [y]) @ x # suf))"
      using snoc.prems le by (auto simp: sorted_append)
    ultimately show ?thesis by (intro exI [of _ "(pre @ [y]) @ x # suf"]) simp
  qed
qed

lemma insertion_inner_prefix:
  fixes k :: "'a \<Rightarrow> int"
  assumes lt: "\<And>a b. lt a b \<longleftrightarrow> k a < k b"
    and i: "i < length xs" and s: "sorted (map k (take i xs))"
  shows "sorted (map k (take (Suc i) (insertion_inner lt xs i)))"
proof -
  have xs: "xs = take i xs @ xs ! i # [] @ drop (Suc i) xs"
    using i by (simp add: id_take_nth_drop [symmetric])
  have len: "length (take i xs) = i" using i by simp
  from insertion_inner_sorted [of lt k "take i xs" "[]" "xs ! i" "drop (Suc i) xs", OF lt]
  obtain ys where ys: "insertion_inner lt (take i xs @ xs ! i # [] @ drop (Suc i) xs) (length (take i xs)) = ys @ drop (Suc i) xs"
     "sorted (map k ys)" "length ys = Suc (length (take i xs) + length ([]::'a list))"
    using s by auto
  have "insertion_inner lt xs i = ys @ drop (Suc i) xs"
    using ys(1) xs len by simp
  moreover have "length ys = Suc i" using ys(3) len by simp
  ultimately show ?thesis using ys(2) by simp
qed

lemma insertion_outer_sorted:
  fixes k :: "'a \<Rightarrow> int"
  assumes lt: "\<And>a b. lt a b \<longleftrightarrow> k a < k b"
  shows "b \<le> length xs \<Longrightarrow> 1 \<le> b \<Longrightarrow>
     sorted (map k (take b (foldl (insertion_inner lt) xs [1..<b])))
     \<and> length (foldl (insertion_inner lt) xs [1..<b]) = length xs"
proof (induction b)
  case 0
  then show ?case by simp
next
  case (Suc b)
  show ?case
  proof (cases "b = 0")
    case True
    then show ?thesis by (cases xs) simp_all
  next
    case False
    let ?ys = "foldl (insertion_inner lt) xs [1..<b]"
    have IH: "sorted (map k (take b ?ys))" "length ?ys = length xs"
      using Suc False by simp_all
    have b: "b < length ?ys" using Suc.prems IH(2) by simp
    have "foldl (insertion_inner lt) xs [1..<Suc b] = insertion_inner lt ?ys b"
      using False by simp
    then show ?thesis
      using insertion_inner_prefix [of lt k b ?ys, OF lt b IH(1)] IH(2)
      by (simp add: length_insertion_inner)
  qed
qed

lemma insertionSort_func_sorted:
  fixes k :: "'a \<Rightarrow> int"
  assumes lt: "\<And>a b. lt a b \<longleftrightarrow> k a < k b"
  shows "sorted (map k (insertionSort_func lt xs))"
proof (cases "xs = []")
  case True
  then show ?thesis by (simp add: insertionSort_func_def)
next
  case False
  then have "1 \<le> length xs" by (cases xs) simp_all
  note both = insertion_outer_sorted [of lt k "length xs" xs, OF lt le_refl this]
  have s: "sorted (map k (take (length xs) (foldl (insertion_inner lt) xs [1..<length xs])))"
    by (rule conjunct1 [OF both])
  have l: "length (foldl (insertion_inner lt) xs [1..<length xs]) = length xs"
    by (rule conjunct2 [OF both])
  have "take (length xs) (foldl (insertion_inner lt) xs [1..<length xs])
      = foldl (insertion_inner lt) xs [1..<length xs]"
    by (rule take_all) (simp only: l le_refl)
  then show ?thesis using s by (simp only: insertionSort_func_def)
qed

lemma mset_insertionSort_func: "mset (insertionSort_func lt xs) = mset xs"
  unfolding insertionSort_func_def
  using foldl_index_mset [of "insertion_inner lt" "[1..<length xs]" xs]
  by (simp add: length_insertion_inner mset_insertion_inner)

lemma mset_shell_pass: "mset (foldl (shell_step lt) xs [6..<length xs]) = mset xs"
  using foldl_index_mset [of "shell_step lt" "[6..<length xs]" xs]
  by (simp add: length_shell_step mset_shell_step)

lemma mset_quickSort_short: "mset (quickSort_short lt xs) = mset xs"
  by (simp add: quickSort_short_def mset_insertionSort_func mset_shell_pass)

lemma less_modified_mtime: "less_modified a b \<longleftrightarrow> mtime a < mtime b"
  by (simp add: less_modified_def mtime_def word_sless_alt)

lemma sorted_quickSort_short: "sorted (map mtime (quickSort_short less_modified xs))"
proof (cases "1 < length xs")
  case True
  then show ?thesis
    by (simp add: quickSort_short_def insertionSort_func_sorted [of less_modified mtime, OF less_modified_mtime])
next
  case False
  then have "xs = [] \<or> (\<exists>x. xs = [x])" by (cases xs) auto
  then show ?thesis using False by (auto simp: quickSort_short_def)
qed

lemma quickSort_short_contract: "sort_Slice_contract (quickSort_short less_modified)"
  unfolding sort_Slice_contract_def
proof (intro allI conjI)
  fix xs
  show "mset (quickSort_short less_modified xs) = mset xs" by (rule mset_quickSort_short)
  have "sorted (map mtime (quickSort_short less_modified xs))" by (rule sorted_quickSort_short)
  then show "sorted_wrt (\<lambda>a b. \<not> less_modified b a) (quickSort_short less_modified xs)"
    unfolding sorted_map by (simp add: less_modified_mtime not_less)
qed

section \<open>Aggregator: facts about findDuplicates\<close>

lemma body_dom: "dom (duplicates (findDuplicates_body srt g d)) = insert (hash_key d) (dom (duplicates g))"
  by (auto simp: findDuplicates_body_def Let_def split: option.splits)

lemma body_other: "k \<noteq> hash_key d \<Longrightarrow> duplicates (findDuplicates_body srt g d) k = duplicates g k"
  by (auto simp: findDuplicates_body_def Let_def split: option.splits)

lemma body_key: "duplicates (findDuplicates_body srt g d) (hash_key d) =
   Some (case duplicates g (hash_key d) of None \<Rightarrow> [d] | Some l \<Rightarrow> srt (l @ [d]))"
  by (auto simp: findDuplicates_body_def Let_def split: option.splits)

lemma body_stats_new: "duplicates g (hash_key d) = None \<Longrightarrow>
  stats (findDuplicates_body srt g d) = (stats g)\<lparr>count_st := count_st (stats g) + 1, size_st := size_st (stats g) + fsize d\<rparr>"
  by (auto simp: findDuplicates_body_def Let_def split: option.splits)

lemma body_stats_old: "duplicates g (hash_key d) = Some l \<Longrightarrow>
  stats (findDuplicates_body srt g d) = (stats g)\<lparr>count_st := count_st (stats g) + 1, size_st := size_st (stats g) + fsize d,
     duplicates_st := duplicates_st (stats g) + 1, duplicateSize_st := duplicateSize_st (stats g) + fsize d\<rparr>"
  by (auto simp: findDuplicates_body_def Let_def split: option.splits)

lemma findDuplicates_snoc: "findDuplicates srt g (ds @ [d]) = findDuplicates_body srt (findDuplicates srt g ds) d"
  by (simp add: findDuplicates_def)

lemma contract_mset: "sort_Slice_contract srt \<Longrightarrow> mset (srt xs) = mset xs"
  by (simp add: sort_Slice_contract_def)

lemma contract_sorted: "sort_Slice_contract srt \<Longrightarrow> sorted (map mtime (srt xs))"
  unfolding sort_Slice_contract_def sorted_map mtime_def less_modified_def
  by (simp add: word_sless_alt not_less)

lemma sum_groups_rest:
  "(\<Sum>k\<in>dom m - {h}. f (the ((m(h \<mapsto> v)) k))) = (\<Sum>k\<in>dom m - {h}. f (the (m k)))"
  by (rule sum.cong) auto

lemma sum_groups_upd:
  assumes "finite (dom m)"
  shows "sum_groups f (m(h \<mapsto> v)) = f v + (\<Sum>k\<in>dom m - {h}. f (the (m k)))"
proof -
  have d: "dom (m(h \<mapsto> v)) = insert h (dom m - {h})" by auto
  have "sum_groups f (m(h \<mapsto> v)) = (\<Sum>k\<in>insert h (dom m - {h}). f (the ((m(h \<mapsto> v)) k)))"
    unfolding sum_groups_def by (simp only: d)
  also have "\<dots> = f (the ((m(h \<mapsto> v)) h)) + (\<Sum>k\<in>dom m - {h}. f (the ((m(h \<mapsto> v)) k)))"
    by (rule sum.insert) (use assms in auto)
  also have "\<dots> = f v + (\<Sum>k\<in>dom m - {h}. f (the (m k)))"
    by (simp only: sum_groups_rest) simp
  finally show ?thesis .
qed

lemma sum_groups_split:
  assumes "finite (dom m)" "m h = Some l"
  shows "sum_groups f m = f l + (\<Sum>k\<in>dom m - {h}. f (the (m k)))"
proof -
  have "h \<in> dom m" using assms by auto
  then show ?thesis unfolding sum_groups_def using assms by (simp add: sum.remove)
qed

lemma sum_groups_new:
  assumes "finite (dom m)" "m h = None"
  shows "sum_groups f (m(h \<mapsto> v)) = f v + sum_groups f m"
proof -
  have "dom m - {h} = dom m" using assms by auto
  then show ?thesis using sum_groups_upd [OF assms(1), of f h v] by (simp add: sum_groups_def)
qed

lemma sum_groups_replace:
  assumes "finite (dom m)" "m h = Some l" "f l' = f l + n"
  shows "sum_groups f (m(h \<mapsto> l')) = sum_groups f m + n"
  using sum_groups_upd [OF assms(1), of f h l'] sum_groups_split [OF assms(1,2), of f] assms(3)
  by simp

lemma count_spec_groups: "duplicateCount_spec m = sum_groups (\<lambda>l. length l - 1) m"
  by (simp add: duplicateCount_spec_def sum_groups_def)

lemma bytes_spec_groups:
  "duplicateBytes_spec m = sum_groups (\<lambda>l. sum_list (map (\<lambda>d. unat (fsize d)) (tl l))) m"
  by (simp add: duplicateBytes_spec_def sum_groups_def)

lemma group_mset:
  assumes "sort_Slice_contract srt"
  shows "mset (members (duplicates (findDuplicates srt g ds)) k)
       = mset (members (duplicates g) k) + mset (filter (\<lambda>d. hash_key d = k) ds)"
proof (induction ds rule: rev_induct)
  case Nil
  show ?case by (simp add: findDuplicates_def)
next
  case (snoc d ds)
  show ?case
  proof (cases "k = hash_key d")
    case True
    then show ?thesis using snoc
      by (auto simp: findDuplicates_snoc members_def body_key contract_mset [OF assms] split: option.splits)
  next
    case False
    then show ?thesis using snoc
      by (auto simp: findDuplicates_snoc members_def body_other)
  qed
qed

lemma findDuplicates_dom:
  "dom (duplicates (findDuplicates srt g ds)) = dom (duplicates g) \<union> hash_key ` set ds"
  by (induction ds rule: rev_induct) (auto simp: findDuplicates_snoc body_dom findDuplicates_def)

lemma contract_length: "sort_Slice_contract srt \<Longrightarrow> length (srt xs) = length xs"
proof -
  assume "sort_Slice_contract srt"
  then have "size (mset (srt xs)) = size (mset xs)" by (simp only: contract_mset)
  then show ?thesis by (simp only: size_mset)
qed

lemma contract_nonempty: "sort_Slice_contract srt \<Longrightarrow> srt (l @ [d]) \<noteq> []"
proof -
  assume "sort_Slice_contract srt"
  then have "length (srt (l @ [d])) = length (l @ [d])" by (rule contract_length)
  then show ?thesis by (cases "srt (l @ [d])") simp_all
qed

lemma contract_set: "sort_Slice_contract srt \<Longrightarrow> set (srt xs) = set xs"
proof -
  assume "sort_Slice_contract srt"
  then have "set_mset (mset (srt xs)) = set_mset (mset xs)" by (simp only: contract_mset)
  then show ?thesis by (simp only: set_mset_mset)
qed

lemma contract_sum:
  fixes f :: "tFileData \<Rightarrow> nat"
  shows "sort_Slice_contract srt \<Longrightarrow> sum_list (map f (srt xs)) = sum_list (map f xs)"
proof -
  assume "sort_Slice_contract srt"
  then have "mset (map f (srt xs)) = mset (map f xs)" by (simp only: mset_map contract_mset)
  then have "sum_mset (mset (map f (srt xs))) = sum_mset (mset (map f xs))" by (rule arg_cong)
  then show ?thesis by (simp only: sum_mset_sum_list)
qed

lemma registry_inv_body:
  assumes "sort_Slice_contract srt" "registry_inv (duplicates g)"
  shows "registry_inv (duplicates (findDuplicates_body srt g d))"
  unfolding registry_inv_def
proof (intro conjI allI impI)
  show "finite (dom (duplicates (findDuplicates_body srt g d)))"
    using assms(2) by (simp add: body_dom registry_inv_def)
next
  fix k l assume kl: "duplicates (findDuplicates_body srt g d) k = Some l"
  show "l \<noteq> []"
  proof (cases "k = hash_key d")
    case True
    then show ?thesis using kl contract_nonempty [OF assms(1)]
      by (auto simp: body_key split: option.splits)
  next
    case False
    then show ?thesis using kl assms(2) by (auto simp: body_other registry_inv_def)
  qed
  show "sorted (map mtime l)"
  proof (cases "k = hash_key d")
    case True
    then show ?thesis using kl contract_sorted [OF assms(1)]
      by (auto simp: body_key split: option.splits)
  next
    case False
    then show ?thesis using kl assms(2) by (auto simp: body_other registry_inv_def)
  qed
qed

lemma registry_inv_findDuplicates:
  assumes "sort_Slice_contract srt" "registry_inv (duplicates g)"
  shows "registry_inv (duplicates (findDuplicates srt g ds))"
proof (induction ds rule: rev_induct)
  case Nil
  then show ?case using assms(2) by (simp add: findDuplicates_def)
next
  case (snoc d ds)
  then show ?case by (simp add: findDuplicates_snoc registry_inv_body [OF assms(1)])
qed

lemma registry_inv_globals0: "registry_inv (duplicates globals0)"
  by (simp add: registry_inv_def globals0_def)

lemma group_members:
  assumes "sort_Slice_contract srt" "duplicates (findDuplicates srt globals0 ds) k = Some l"
  shows "mset l = mset (filter (\<lambda>d. hash_key d = k) ds)"
  using group_mset [OF assms(1), of globals0 ds k] assms(2)
  by (simp add: members_def globals0_def)

lemma count_new:
  assumes "registry_inv (duplicates g)" "duplicates g (hash_key d) = None"
  shows "duplicateCount_spec (duplicates (findDuplicates_body srt g d)) = duplicateCount_spec (duplicates g)"
proof -
  have "duplicates (findDuplicates_body srt g d) = (duplicates g)(hash_key d \<mapsto> [d])"
    using assms(2) by (simp add: findDuplicates_body_def Let_def)
  then show ?thesis using assms
    by (simp add: count_spec_groups sum_groups_new registry_inv_def)
qed

lemma count_old:
  assumes "sort_Slice_contract srt" "registry_inv (duplicates g)" "duplicates g (hash_key d) = Some l"
  shows "duplicateCount_spec (duplicates (findDuplicates_body srt g d)) = Suc (duplicateCount_spec (duplicates g))"
proof -
  have upd: "duplicates (findDuplicates_body srt g d) = (duplicates g)(hash_key d \<mapsto> srt (l @ [d]))"
    using assms(3) by (simp add: findDuplicates_body_def Let_def)
  have ne: "l \<noteq> []" using assms(2,3) by (auto simp: registry_inv_def)
  have fin: "finite (dom (duplicates g))" using assms(2) by (simp add: registry_inv_def)
  have len: "length (srt (l @ [d])) - 1 = (length l - 1) + 1"
    using ne by (simp add: contract_length [OF assms(1)])
  have "sum_groups (\<lambda>l. length l - 1) ((duplicates g)(hash_key d \<mapsto> srt (l @ [d])))
      = sum_groups (\<lambda>l. length l - 1) (duplicates g) + 1"
    by (rule sum_groups_replace [OF fin assms(3)]) (rule len)
  then show ?thesis by (simp only: upd count_spec_groups Suc_eq_plus1)
qed

lemma duplicates_st_identity:
  assumes "sort_Slice_contract srt"
  shows "duplicates_st (stats (findDuplicates srt globals0 ds))
       = of_nat (duplicateCount_spec (duplicates (findDuplicates srt globals0 ds)))"
proof (induction ds rule: rev_induct)
  case Nil
  show ?case by (simp add: findDuplicates_def globals0_def stats0_def duplicateCount_spec_def)
next
  case (snoc d ds)
  let ?g = "findDuplicates srt globals0 ds"
  have inv: "registry_inv (duplicates ?g)"
    by (rule registry_inv_findDuplicates [OF assms registry_inv_globals0])
  show ?case
  proof (cases "duplicates ?g (hash_key d)")
    case None
    have "duplicates_st (stats (findDuplicates_body srt ?g d)) = duplicates_st (stats ?g)"
      by (simp add: body_stats_new [OF None])
    then show ?thesis using snoc
      by (simp only: findDuplicates_snoc count_new [OF inv None])
  next
    case (Some l)
    have "duplicates_st (stats (findDuplicates_body srt ?g d)) = duplicates_st (stats ?g) + 1"
      by (simp add: body_stats_old [OF Some])
    then show ?thesis using snoc
      by (simp only: findDuplicates_snoc count_old [OF assms inv Some] of_nat_Suc add.commute)
  qed
qed

lemma sum_list_hd_tl:
  fixes f :: "'a \<Rightarrow> nat"
  shows "xs \<noteq> [] \<Longrightarrow> sum_list (map f xs) = f (hd xs) + sum_list (map f (tl xs))"
  by (cases xs) simp_all

lemma bytes_new:
  assumes "registry_inv (duplicates g)" "duplicates g (hash_key d) = None"
  shows "duplicateBytes_spec (duplicates (findDuplicates_body srt g d)) = duplicateBytes_spec (duplicates g)"
proof -
  have "duplicates (findDuplicates_body srt g d) = (duplicates g)(hash_key d \<mapsto> [d])"
    using assms(2) by (simp add: findDuplicates_body_def Let_def)
  then show ?thesis using assms
    by (simp add: bytes_spec_groups sum_groups_new registry_inv_def)
qed

lemma bytes_old:
  assumes c: "sort_Slice_contract srt" and inv: "registry_inv (duplicates g)"
    and look: "duplicates g (hash_key d) = Some l"
    and same: "\<forall>x\<in>set l. fsize x = fsize d"
  shows "duplicateBytes_spec (duplicates (findDuplicates_body srt g d))
       = duplicateBytes_spec (duplicates g) + unat (fsize d)"
proof -
  let ?f = "\<lambda>x. unat (fsize x)"
  let ?l' = "srt (l @ [d])"
  have upd: "duplicates (findDuplicates_body srt g d) = (duplicates g)(hash_key d \<mapsto> ?l')"
    using look by (simp add: findDuplicates_body_def Let_def)
  have ne: "l \<noteq> []" using inv look by (auto simp: registry_inv_def)
  have fin: "finite (dom (duplicates g))" using inv by (simp add: registry_inv_def)
  have ne': "?l' \<noteq> []" by (rule contract_nonempty [OF c])
  have "hd ?l' \<in> set ?l'" using ne' by simp
  then have "hd ?l' \<in> set (l @ [d])" by (simp only: contract_set [OF c])
  then have h': "?f (hd ?l') = ?f d" using same by auto
  have h: "?f (hd l) = ?f d" using same ne by simp
  have tot: "sum_list (map ?f ?l') = sum_list (map ?f l) + ?f d"
    by (simp add: contract_sum [OF c])
  have a: "sum_list (map ?f ?l') = ?f (hd ?l') + sum_list (map ?f (tl ?l'))"
    by (rule sum_list_hd_tl [OF ne'])
  have b: "sum_list (map ?f l) = ?f (hd l) + sum_list (map ?f (tl l))"
    by (rule sum_list_hd_tl [OF ne])
  have step: "sum_list (map ?f (tl ?l')) = sum_list (map ?f (tl l)) + ?f d"
    using tot a b h h' by linarith
  have "sum_groups (\<lambda>l. sum_list (map ?f (tl l))) ((duplicates g)(hash_key d \<mapsto> ?l'))
      = sum_groups (\<lambda>l. sum_list (map ?f (tl l))) (duplicates g) + ?f d"
    by (rule sum_groups_replace [OF fin look]) (rule step)
  then show ?thesis by (simp only: upd bytes_spec_groups)
qed

lemma uniform_sizes_butlast: "uniform_sizes (ds @ [d]) \<Longrightarrow> uniform_sizes ds"
  unfolding uniform_sizes_def by (metis Un_iff set_append)

lemma uniform_sizes_last:
  "uniform_sizes (ds @ [d]) \<Longrightarrow> x \<in> set ds \<Longrightarrow> hash_key x = hash_key d \<Longrightarrow> fsize x = fsize d"
  unfolding uniform_sizes_def by (metis Un_iff set_append list.set_intros(1))

lemma group_subset:
  assumes "sort_Slice_contract srt" "duplicates (findDuplicates srt globals0 ds) k = Some l" "x \<in> set l"
  shows "x \<in> set ds \<and> hash_key x = k"
proof -
  have "set_mset (mset l) = set_mset (mset (filter (\<lambda>d. hash_key d = k) ds))"
    by (simp only: group_members [OF assms(1,2)])
  then have "set l = set (filter (\<lambda>d. hash_key d = k) ds)" by (simp only: set_mset_mset)
  then show ?thesis using assms(3) by simp
qed

lemma duplicateSize_st_identity:
  assumes c: "sort_Slice_contract srt"
  shows "uniform_sizes ds \<Longrightarrow> duplicateSize_st (stats (findDuplicates srt globals0 ds))
       = of_nat (duplicateBytes_spec (duplicates (findDuplicates srt globals0 ds)))"
proof (induction ds rule: rev_induct)
  case Nil
  show ?case by (simp add: findDuplicates_def globals0_def stats0_def duplicateBytes_spec_def)
next
  case (snoc d ds)
  let ?g = "findDuplicates srt globals0 ds"
  have inv: "registry_inv (duplicates ?g)"
    by (rule registry_inv_findDuplicates [OF c registry_inv_globals0])
  have IH: "duplicateSize_st (stats ?g) = of_nat (duplicateBytes_spec (duplicates ?g))"
    by (rule snoc.IH) (rule uniform_sizes_butlast [OF snoc.prems])
  show ?case
  proof (cases "duplicates ?g (hash_key d)")
    case None
    have "duplicateSize_st (stats (findDuplicates_body srt ?g d)) = duplicateSize_st (stats ?g)"
      by (simp add: body_stats_new [OF None])
    then show ?thesis using IH
      by (simp only: findDuplicates_snoc bytes_new [OF inv None])
  next
    case (Some l)
    have same: "\<forall>x\<in>set l. fsize x = fsize d"
    proof
      fix x assume "x \<in> set l"
      then have "x \<in> set ds \<and> hash_key x = hash_key d" by (rule group_subset [OF c Some])
      then show "fsize x = fsize d" using uniform_sizes_last [OF snoc.prems] by blast
    qed
    have "duplicateSize_st (stats (findDuplicates_body srt ?g d)) = duplicateSize_st (stats ?g) + fsize d"
      by (simp add: body_stats_old [OF Some])
    moreover have "(of_nat (duplicateBytes_spec (duplicates ?g) + unat (fsize d)) :: 64 word)
        = of_nat (duplicateBytes_spec (duplicates ?g)) + fsize d"
      by simp
    ultimately show ?thesis using IH
      by (simp only: findDuplicates_snoc bytes_old [OF c inv Some same])
  qed
qed

section \<open>Aggregator: the claims\<close>

lemma hash_key_fd: "hash_key (fd p s m) = ''e8b7be43''"
  unfolding hash_key_def fd_def hash_a_def by code_simp

lemma uniform_sizes_take: "uniform_sizes ds \<Longrightarrow> uniform_sizes (take n ds)"
  unfolding uniform_sizes_def by (meson in_set_takeD)

lemma unat_of_nat_32: "unat (of_nat n :: 32 word) = n mod 2 ^ 32"
  by (simp add: unat_of_nat)

lemma unat_of_nat_64: "unat (of_nat n :: 64 word) = n mod 2 ^ 64"
  by (simp add: unat_of_nat)

lemma quickSort_short_pair:
  "quickSort_short less_modified [fd ''/s/a'' 1 2, fd ''/s/b'' 4 1] = [fd ''/s/b'' 4 1, fd ''/s/a'' 1 2]"
  by code_simp

lemma findDuplicates_pair:
  "findDuplicates (quickSort_short less_modified) globals0 [fd ''/s/a'' 1 2, fd ''/s/b'' 4 1]
     = \<lparr>duplicates = [''e8b7be43'' \<mapsto> [fd ''/s/b'' 4 1, fd ''/s/a'' 1 2]],
        stats = \<lparr>seconds_st = 0, count_st = 2, size_st = 5, duplicates_st = 1,
                 duplicateSize_st = 4, complted_st = False\<rparr>\<rparr>"
  by (simp add: findDuplicates_def findDuplicates_body_def globals0_def stats0_def hash_key_fd
        quickSort_short_pair Let_def) (simp add: fd_def)

text \<open>
  Counterexample to C1 as stated: two records with one fingerprint and different sizes,
  the second older than the first. The older record becomes member 0; the counter has
  grown by the size of the record that arrived (4), the one non-canonical member has
  size 1.
\<close>

theorem counter_identities_counterexample:
  "sort_Slice_contract (quickSort_short less_modified) \<and>
   \<not> counter_identities
        (findDuplicates (quickSort_short less_modified) globals0 [fd ''/s/a'' 1 2, fd ''/s/b'' 4 1])"
proof -
  have "\<not> counter_identities
        (findDuplicates (quickSort_short less_modified) globals0 [fd ''/s/a'' 1 2, fd ''/s/b'' 4 1])"
    unfolding findDuplicates_pair counter_identities_def
    by (simp add: duplicateBytes_spec_def duplicateCount_spec_def fd_def)
  then show ?thesis by (simp only: quickSort_short_contract simp_thms)
qed

text \<open>
  C1 (amended): after every prefix of the stream of fingerprinted records,
  \<open>stats.duplicates\<close> is the sum over the groups of the member count less one, as a
  \<open>uint32\<close> (modulo \<open>2^32\<close>); and when records with the same key have the same size,
  \<open>stats.duplicateSize\<close> is the sum of the sizes of the members after the first, as a
  \<open>uint64\<close> (modulo \<open>2^64\<close>), whichever member the sort puts first.
\<close>

theorem counters_after_every_record:
  assumes "sort_Slice_contract srt"
  shows "unat (duplicates_st (stats (findDuplicates srt globals0 (take n ds))))
           = duplicateCount_spec (duplicates (findDuplicates srt globals0 (take n ds))) mod 2 ^ 32
       \<and> (uniform_sizes ds \<longrightarrow>
            unat (duplicateSize_st (stats (findDuplicates srt globals0 (take n ds))))
              = duplicateBytes_spec (duplicates (findDuplicates srt globals0 (take n ds))) mod 2 ^ 64)"
proof (intro conjI impI)
  show "unat (duplicates_st (stats (findDuplicates srt globals0 (take n ds))))
           = duplicateCount_spec (duplicates (findDuplicates srt globals0 (take n ds))) mod 2 ^ 32"
    by (simp only: duplicates_st_identity [OF assms] unat_of_nat_32)
next
  assume "uniform_sizes ds"
  then have "uniform_sizes (take n ds)" by (rule uniform_sizes_take)
  then show "unat (duplicateSize_st (stats (findDuplicates srt globals0 (take n ds))))
              = duplicateBytes_spec (duplicates (findDuplicates srt globals0 (take n ds))) mod 2 ^ 64"
    by (simp only: duplicateSize_st_identity [OF assms] unat_of_nat_64)
qed


lemma uniform_sizes_pair: "uniform_sizes [fd ''/s/a'' 1 2, fd ''/s/b'' 1 1]"
  unfolding uniform_sizes_def by (simp add: fd_def)

text \<open>Witness for C1: two records of size 1 with one fingerprint.\<close>

theorem counters_after_every_record_witness:
  "sort_Slice_contract (quickSort_short less_modified) \<and>
   uniform_sizes [fd ''/s/a'' 1 2, fd ''/s/b'' 1 1] \<and>
   unat (duplicates_st (stats (findDuplicates (quickSort_short less_modified) globals0
           (take 2 [fd ''/s/a'' 1 2, fd ''/s/b'' 1 1]))))
     = duplicateCount_spec (duplicates (findDuplicates (quickSort_short less_modified) globals0
           (take 2 [fd ''/s/a'' 1 2, fd ''/s/b'' 1 1]))) mod 2 ^ 32 \<and>
   unat (duplicateSize_st (stats (findDuplicates (quickSort_short less_modified) globals0
           (take 2 [fd ''/s/a'' 1 2, fd ''/s/b'' 1 1]))))
     = duplicateBytes_spec (duplicates (findDuplicates (quickSort_short less_modified) globals0
           (take 2 [fd ''/s/a'' 1 2, fd ''/s/b'' 1 1]))) mod 2 ^ 64"
  using counters_after_every_record [OF quickSort_short_contract, of 2 "[fd ''/s/a'' 1 2, fd ''/s/b'' 1 1]"]
    quickSort_short_contract uniform_sizes_pair
  by blast

lemma sorted_hd_least:
  fixes f :: "'a \<Rightarrow> int"
  shows "sorted (map f l) \<Longrightarrow> d \<in> set l \<Longrightarrow> f (hd l) \<le> f d"
  by (cases l) auto

text \<open>
  C2 (amended): after any stream of records, every group is non-empty, ascending by
  modification time, headed by a member of least modification time, and holds exactly
  the records of the stream that carry its key. Nothing is said about the order of
  members with equal modification time.
\<close>

theorem group_sorted_oldest_first:
  assumes "sort_Slice_contract srt"
    and "duplicates (findDuplicates srt globals0 ds) k = Some l"
  shows "l \<noteq> [] \<and> sorted (map mtime l) \<and> (\<forall>d\<in>set l. mtime (hd l) \<le> mtime d)
       \<and> mset l = mset (filter (\<lambda>d. hash_key d = k) ds)"
proof -
  have "registry_inv (duplicates (findDuplicates srt globals0 ds))"
    by (rule registry_inv_findDuplicates [OF assms(1) registry_inv_globals0])
  then have ne: "l \<noteq> []" and s: "sorted (map mtime l)"
    using assms(2) by (auto simp: registry_inv_def)
  have "\<forall>d\<in>set l. mtime (hd l) \<le> mtime d"
    using sorted_hd_least [OF s] by blast
  then show ?thesis using ne s group_members [OF assms] by blast
qed

lemma findDuplicates_pair_key:
  "duplicates (findDuplicates (quickSort_short less_modified) globals0 [fd ''/s/a'' 1 2, fd ''/s/b'' 4 1])
     ''e8b7be43'' = Some [fd ''/s/b'' 4 1, fd ''/s/a'' 1 2]"
  by (simp add: findDuplicates_pair)

text \<open>Witness for C2: the younger record arrives first.\<close>

theorem group_sorted_oldest_first_witness:
  "sort_Slice_contract (quickSort_short less_modified) \<and>
   duplicates (findDuplicates (quickSort_short less_modified) globals0 [fd ''/s/a'' 1 2, fd ''/s/b'' 4 1])
     ''e8b7be43'' = Some [fd ''/s/b'' 4 1, fd ''/s/a'' 1 2] \<and>
   [fd ''/s/b'' 4 1, fd ''/s/a'' 1 2] \<noteq> [] \<and>
   sorted (map mtime [fd ''/s/b'' 4 1, fd ''/s/a'' 1 2]) \<and>
   mtime (hd [fd ''/s/b'' 4 1, fd ''/s/a'' 1 2]) \<le> mtime (fd ''/s/b'' 4 1) \<and>
   mtime (hd [fd ''/s/b'' 4 1, fd ''/s/a'' 1 2]) \<le> mtime (fd ''/s/a'' 1 2) \<and>
   mset [fd ''/s/b'' 4 1, fd ''/s/a'' 1 2]
     = mset (filter (\<lambda>d. hash_key d = ''e8b7be43'') [fd ''/s/a'' 1 2, fd ''/s/b'' 4 1])"
  using group_sorted_oldest_first [OF quickSort_short_contract findDuplicates_pair_key]
    quickSort_short_contract findDuplicates_pair_key
  by simp

lemma seven_then_older_group:
  "duplicates (findDuplicates (quickSort_short less_modified) globals0 seven_then_older) ''e8b7be43''
     = Some [fd ''/s/g'' 1 1, fd ''/s/f0'' 1 5, fd ''/s/f2'' 1 5, fd ''/s/f3'' 1 5, fd ''/s/f4'' 1 5,
             fd ''/s/f5'' 1 5, fd ''/s/f6'' 1 5, fd ''/s/f1'' 1 5]"
  by code_simp

lemma seven_then_older_spec:
  "arrival_order_spec seven_then_older ''e8b7be43''
     = [fd ''/s/g'' 1 1, fd ''/s/f0'' 1 5, fd ''/s/f1'' 1 5, fd ''/s/f2'' 1 5, fd ''/s/f3'' 1 5,
        fd ''/s/f4'' 1 5, fd ''/s/f5'' 1 5, fd ''/s/f6'' 1 5]"
  by code_simp

text \<open>
  Counterexample to C2 as stated: seven records with one modification time arrive, then
  an older one. With the short-slice routine, the Shell pass swaps the newcomer with
  \<open>f1\<close>, six places before it, and \<open>f1\<close> ends behind \<open>f2\<close>, \<open>\<dots>\<close>, \<open>f6\<close>, which
  arrived after it.
\<close>

theorem ties_keep_arrival_order_counterexample:
  "sort_Slice_contract (quickSort_short less_modified) \<and>
   duplicates (findDuplicates (quickSort_short less_modified) globals0 seven_then_older) ''e8b7be43''
     \<noteq> Some (arrival_order_spec seven_then_older ''e8b7be43'')"
proof -
  have "fd ''/s/f2'' 1 5 \<noteq> fd ''/s/f1'' 1 5" by (simp add: fd_def)
  then show ?thesis
    by (simp add: quickSort_short_contract seven_then_older_group seven_then_older_spec)
qed

end
